theory Spec2Isabelle
  imports Complex_Main "HOL-Library.List_Lexorder" "HOL-Library.Char_ord"
begin

section \<open>Exceptions and results\<close>

text \<open>
  The dashboard is a Python script. Every place where the interpreter or a library
  would raise is a branch of the model: a computation returns \<open>exn + 'a\<close>, with
  \<open>Inl\<close> carrying the exception. All constructors below are subclasses of Python's
  \<open>Exception\<close>, so an \<open>except Exception\<close> clause catches each of them.
\<close>

datatype exn =
    ValueError string
  | IndexError string
  | KeyError string
  | TypeError string
  | ZeroDivisionError string
  | OperationalError string
  | ProgrammingError string

fun str_exn :: "exn \<Rightarrow> string" where
  "str_exn (ValueError m) = m"
| "str_exn (IndexError m) = m"
| "str_exn (KeyError m) = m"
| "str_exn (TypeError m) = m"
| "str_exn (ZeroDivisionError m) = m"
| "str_exn (OperationalError m) = m"
| "str_exn (ProgrammingError m) = m"

text \<open>Sequencing: the second computation runs only when the first did not raise.\<close>

definition and_then :: "exn + 'a \<Rightarrow> ('a \<Rightarrow> exn + 'b) \<Rightarrow> exn + 'b" where
  "and_then m f = (case m of Inl e \<Rightarrow> Inl e | Inr x \<Rightarrow> f x)"

text \<open>A list comprehension whose body may raise: the first exception ends it.\<close>

fun traverse :: "('a \<Rightarrow> exn + 'b) \<Rightarrow> 'a list \<Rightarrow> exn + 'b list" where
  "traverse f [] = Inr []"
| "traverse f (x # xs) =
     (case f x of
        Inl e \<Rightarrow> Inl e
      | Inr y \<Rightarrow> (case traverse f xs of Inl e \<Rightarrow> Inl e | Inr ys \<Rightarrow> Inr (y # ys)))"


section \<open>Stream records\<close>

text \<open>
  One message of the topic \<open>aggregated_votes_per_candidate\<close> and one of the topic
  \<open>aggregated_turnout_by_location\<close>, with the columns \<open>update_data\<close> reads.
\<close>

record candidate_aggregate =
  candidate_id :: string
  candidate_name :: string
  party_affiliation :: string
  photo_url :: string
  total_votes :: int

record turnout_aggregate =
  state :: string
  count :: int


section \<open>Data frames\<close>

text \<open>
  A data frame is the list of its rows in display order, each with its index label.
  \<open>pd.DataFrame(data)\<close> labels the rows \<open>0, 1, 2, ...\<close> in arrival order. A series is
  one column of a frame, with the same labels.
\<close>

type_synonym 'r frame = "(nat \<times> 'r) list"

type_synonym series = "(nat \<times> int) list"

definition DataFrame :: "'r list \<Rightarrow> 'r frame" where
  "DataFrame data = enumerate 0 data"

definition column :: "('r \<Rightarrow> int) \<Rightarrow> 'r frame \<Rightarrow> series" where
  "column c df = map (\<lambda>(l, r). (l, c r)) df"

text \<open>
  \<open>Series.idxmax()\<close>: the label of the first occurrence of the maximum; an empty series
  raises \<open>ValueError\<close>. The scan keeps the best entry so far and replaces it only by a
  strictly greater one.
\<close>

fun first_max :: "nat \<times> int \<Rightarrow> series \<Rightarrow> nat \<times> int" where
  "first_max best [] = best"
| "first_max best (x # xs) = first_max (if snd best < snd x then x else best) xs"

fun idxmax :: "series \<Rightarrow> exn + nat" where
  "idxmax [] = Inl (ValueError ''attempt to get argmax of an empty sequence'')"
| "idxmax (x # xs) = Inr (fst (first_max x xs))"

text \<open>
  \<open>df.groupby(key)\<close> with the default \<open>sort=True\<close>: one group per distinct key, the
  groups in ascending key order, the rows of a group in frame order.
\<close>

definition groupby :: "('r \<Rightarrow> 'k::linorder) \<Rightarrow> 'r frame \<Rightarrow> ('k \<times> 'r frame) list" where
  "groupby key df =
     map (\<lambda>k. (k, filter (\<lambda>(l, r). key r = k) df)) (sort (remdups (map (key \<circ> snd) df)))"

text \<open>\<open>df.groupby(key)[c].idxmax()\<close>: per group, the label of its first maximum.\<close>

definition groupby_idxmax ::
  "('r \<Rightarrow> 'k::linorder) \<Rightarrow> ('r \<Rightarrow> int) \<Rightarrow> 'r frame \<Rightarrow> exn + nat list" where
  "groupby_idxmax key c df = traverse (\<lambda>(k, g). idxmax (column c g)) (groupby key df)"

text \<open>
  \<open>df.loc[label]\<close> selects the row with that label, \<open>df.loc[labels]\<close> the rows with the
  given labels, in the order of the labels; a label the frame lacks raises \<open>KeyError\<close>.
\<close>

definition loc_row :: "'r frame \<Rightarrow> nat \<Rightarrow> exn + 'r" where
  "loc_row df l = (case map_of df l of None \<Rightarrow> Inl (KeyError ''label'') | Some r \<Rightarrow> Inr r)"

definition loc :: "'r frame \<Rightarrow> nat list \<Rightarrow> exn + 'r frame" where
  "loc df labels =
     traverse (\<lambda>l. case loc_row df l of Inl e \<Rightarrow> Inl e | Inr r \<Rightarrow> Inr (l, r)) labels"

text \<open>\<open>df.reset_index(drop=True)\<close> relabels the rows \<open>0, 1, 2, ...\<close> in frame order.\<close>

definition reset_index :: "'r frame \<Rightarrow> 'r frame" where
  "reset_index df = enumerate 0 (map snd df)"


section \<open>The reduction of \<open>update_data\<close>\<close>

text \<open>
  Lines 128-129 and 159-160 of \<open>update_data\<close>:
  \<^verbatim>\<open>results = pd.DataFrame(data)\<close>,
  \<^verbatim>\<open>results = results.loc[results.groupby(key)[c].idxmax()]\<close>.
  The reduced frame keeps the labels of the rows it selected.
\<close>

definition reduce_batch ::
  "('r \<Rightarrow> 'k::linorder) \<Rightarrow> ('r \<Rightarrow> int) \<Rightarrow> 'r list \<Rightarrow> exn + 'r frame" where
  "reduce_batch key c data =
     (let results = DataFrame data in
      case groupby_idxmax key c results of
        Inl e \<Rightarrow> Inl e
      | Inr labels \<Rightarrow> loc results labels)"

text \<open>Line 130: \<^verbatim>\<open>leading_candidate = results.loc[results[c].idxmax()]\<close>.\<close>

definition leading :: "('r \<Rightarrow> int) \<Rightarrow> 'r frame \<Rightarrow> exn + 'r" where
  "leading c results =
     (case idxmax (column c results) of Inl e \<Rightarrow> Inl e | Inr l \<Rightarrow> loc_row results l)"

text \<open>
  The tie-break as the specification words it, for comparison with \<open>leading\<close>: among the
  records of the batch whose counter is the maximum, the one that appears first in the
  batch names the leading key.
\<close>

definition spec_first_seen_leader :: "('r \<Rightarrow> 'k) \<Rightarrow> ('r \<Rightarrow> int) \<Rightarrow> 'r list \<Rightarrow> 'k option" where
  "spec_first_seen_leader key c B =
     map_option key (find (\<lambda>r. list_all (\<lambda>r'. c r' \<le> c r) B) B)"


section \<open>Python primitives used by the paginator\<close>

text \<open>
  \<open>xs[i]\<close> on a list or tuple: a negative index counts from the end, an index out of
  range raises \<open>IndexError\<close>.
\<close>

definition getitem :: "'a list \<Rightarrow> int \<Rightarrow> exn + 'a" where
  "getitem xs i =
     (if 0 \<le> i \<and> i < int (length xs) then Inr (xs ! nat i)
      else if i < 0 \<and> - int (length xs) \<le> i then Inr (xs ! nat (int (length xs) + i))
      else Inl (IndexError ''list index out of range''))"

text \<open>
  \<open>range(start, stop, step)\<close>: a zero step raises \<open>ValueError\<close>; otherwise the values
  \<open>start, start + step, ...\<close> strictly before \<open>stop\<close> in the direction of the step.
\<close>

definition py_range :: "int \<Rightarrow> int \<Rightarrow> int \<Rightarrow> exn + int list" where
  "py_range start stop step =
     (if step = 0 then Inl (ValueError ''range() arg 3 must not be zero'')
      else
        let len = (if 0 < step
                   then (if start < stop then nat ((stop - start - 1) div step + 1) else 0)
                   else (if stop < start then nat ((start - stop - 1) div (- step) + 1) else 0))
        in Inr (map (\<lambda>k. start + int k * step) [0..<len]))"

text \<open>
  \<open>df.iloc[i:j]\<close>: a positional slice with Python's rules; a negative bound counts from
  the end, and both bounds are clamped to the frame. The rows keep their labels.
\<close>

definition iloc_slice :: "'a list \<Rightarrow> int \<Rightarrow> int \<Rightarrow> 'a list" where
  "iloc_slice df i j =
     (let n = int (length df);
          lo = (if i < 0 then max 0 (n + i) else min i n);
          hi = (if j < 0 then max 0 (n + j) else min j n)
      in take (nat (hi - lo)) (drop (nat lo) df))"

text \<open>\<open>a // b\<close> on integers: floor division, \<open>ZeroDivisionError\<close> for a zero divisor.\<close>

definition floordiv :: "int \<Rightarrow> int \<Rightarrow> exn + int" where
  "floordiv a b =
     (if b = 0 then Inl (ZeroDivisionError ''integer division or modulo by zero'')
      else Inr (a div b))"

text \<open>\<open>str(n)\<close> for an integer, as an f-string interpolates it.\<close>

fun str_nat :: "nat \<Rightarrow> string" where
  "str_nat n =
     (if n < 10 then [''0123456789'' ! n] else str_nat (n div 10) @ [''0123456789'' ! (n mod 10)])"

definition str_int :: "int \<Rightarrow> string" where
  "str_int i = (if i < 0 then ''-'' @ str_nat (nat (- i)) else str_nat (nat i))"


section \<open>The user interface\<close>

text \<open>
  Each call that puts an element on the page is recorded, in call order. The values the
  input widgets hand back in one script run are the fields of \<open>ui_input\<close>
  (\<open>sort_option\<close> is the source's variable \<open>sort\<close>); the radio \<open>Direction\<close> offers an
  up arrow and a down arrow, here \<open>Up\<close> and \<open>Down\<close>.
\<close>

datatype 'r ui_event =
    StError string
  | StWarning string
  | StColumns nat
  | StRadio string
  | StSelectbox string
  | StNumberInput string int int
  | StMarkdown string
  | StDataframe "'r frame"

datatype direction = Up | Down

record ui_input =
  sort_option :: string
  sort_field :: string
  sort_direction :: direction
  batch_size :: int
  current_page :: int


section \<open>Pagination\<close>

text \<open>
  \<open>split_frame\<close>:
  \<^verbatim>\<open>[input_df.iloc[i:i + rows] for i in range(0, len(input_df), rows)]\<close>.
\<close>

definition split_frame :: "'r frame \<Rightarrow> int \<Rightarrow> exn + 'r frame list" where
  "split_frame input_df rows =
     and_then (py_range 0 (int (length input_df)) rows)
       (\<lambda>starts. Inr (map (\<lambda>i. iloc_slice input_df i (i + rows)) starts))"

text \<open>
  The number of chunks \<open>split_frame\<close> produces for a frame of \<open>n\<close> rows and a positive
  chunk size \<open>b\<close>, in closed form: the length of \<open>range(0, n, b)\<close>.
\<close>

definition n_chunks :: "nat \<Rightarrow> nat \<Rightarrow> nat" where
  "n_chunks n b = (if n = 0 then 0 else (n - 1) div b + 1)"

text \<open>
  Lines 94-100 of \<open>paginate_table\<close>: the sort controls and the optional sort. The sort
  itself is the library routine \<open>DataFrame.sort_values(by, ascending, ignore_index=True)\<close>,
  which the function receives as \<open>sort_values\<close>.
\<close>

definition sort_step ::
  "(string \<Rightarrow> bool \<Rightarrow> 'r frame \<Rightarrow> 'r frame) \<Rightarrow> ui_input \<Rightarrow> 'r frame \<Rightarrow> 'r frame \<times> 'r ui_event list" where
  "sort_step sort_values ui table_data =
     (if sort_option ui = ''Yes''
      then (sort_values (sort_field ui) (sort_direction ui = Up) table_data,
            [StRadio ''Sort Data'', StSelectbox ''Sort By'', StRadio ''Direction''])
      else (table_data, [StRadio ''Sort Data'']))"

text \<open>Line 106: \<^verbatim>\<open>total_pages = max(1, len(table_data) // batch_size)\<close>.\<close>

definition total_pages :: "'r frame \<Rightarrow> int \<Rightarrow> exn + int" where
  "total_pages table_data page_size =
     and_then (floordiv (int (length table_data)) page_size) (\<lambda>q. Inr (max 1 q))"

text \<open>
  Lines 110-111: \<^verbatim>\<open>pages = split_frame(table_data, batch_size)\<close> and the
  lookup \<^verbatim>\<open>pages[current_page - 1]\<close>.
\<close>

definition select_page :: "'r frame \<Rightarrow> int \<Rightarrow> int \<Rightarrow> exn + 'r frame" where
  "select_page table_data page_size page_number =
     and_then (split_frame table_data page_size) (\<lambda>pages. getitem pages (page_number - 1))"

text \<open>
  \<open>paginate_table\<close>: the outcome (the function returns \<open>None\<close>, or an exception leaves
  it) and the elements put on the page up to that point.
\<close>

definition paginate_table ::
  "(string \<Rightarrow> bool \<Rightarrow> 'r frame \<Rightarrow> 'r frame) \<Rightarrow> ui_input \<Rightarrow> 'r frame \<Rightarrow> (exn + unit) \<times> 'r ui_event list" where
  "paginate_table sort_values ui table_data =
     (if table_data = [] then (Inr (), [StWarning ''No data available.''])
      else
        let (table_data, sort_events) = sort_step sort_values ui table_data;
            ev = [StColumns 3] @ sort_events @ [StColumns 3, StSelectbox ''Page Size'']
        in case total_pages table_data (batch_size ui) of
             Inl e \<Rightarrow> (Inl e, ev)
           | Inr n_pages \<Rightarrow>
               let ev = ev @ [StNumberInput ''Page'' 1 n_pages,
                              StMarkdown (''Page **'' @ str_int (current_page ui) @ ''** of **''
                                          @ str_int n_pages @ ''** '')]
               in case select_page table_data (batch_size ui) (current_page ui) of
                    Inl e \<Rightarrow> (Inl e, ev)
                  | Inr page \<Rightarrow> (Inr (), ev @ [StDataframe page]))"


section \<open>The scalar statistics read\<close>

text \<open>
  What the relational store answers to each call of \<open>fetch_voting_stats\<close>, in call order:
  \<open>psycopg2.connect\<close>, \<open>conn.cursor()\<close>, the two \<open>cur.execute\<close> and \<open>cur.fetchone()\<close>
  pairs, \<open>cur.close()\<close> and \<open>conn.close()\<close>. A fetched row is a tuple of integers, or
  \<open>None\<close> when the result set has no row.
\<close>

record store =
  connect :: "exn + unit"
  cursor :: "exn + unit"
  execute_voters :: "exn + unit"
  fetchone_voters :: "exn + int list option"
  execute_candidates :: "exn + unit"
  fetchone_candidates :: "exn + int list option"
  cur_close :: "exn + unit"
  conn_close :: "exn + unit"

text \<open>\<open>cur.fetchone()[0]\<close>: \<open>None\<close> is not subscriptable.\<close>

definition first_column :: "exn + int list option \<Rightarrow> exn + int" where
  "first_column fetched =
     and_then fetched (\<lambda>row.
       case row of
         None \<Rightarrow> Inl (TypeError ''NoneType object is not subscriptable'')
       | Some t \<Rightarrow> getitem t 0)"

text \<open>The body of the \<open>try\<close> block, lines 29-41.\<close>

definition fetch_voting_stats_try :: "store \<Rightarrow> exn + int \<times> int" where
  "fetch_voting_stats_try db =
     and_then (connect db) (\<lambda>_.
     and_then (cursor db) (\<lambda>_.
     and_then (execute_voters db) (\<lambda>_.
     and_then (first_column (fetchone_voters db)) (\<lambda>voters_count.
     and_then (execute_candidates db) (\<lambda>_.
     and_then (first_column (fetchone_candidates db)) (\<lambda>candidates_count.
     and_then (cur_close db) (\<lambda>_.
     and_then (conn_close db) (\<lambda>_.
     Inr (voters_count, candidates_count)))))))))"

text \<open>
  \<open>fetch_voting_stats\<close>: the \<open>except Exception\<close> clause shows the exception with
  \<open>st.error\<close> and returns \<open>0, 0\<close>.
\<close>

definition fetch_voting_stats :: "store \<Rightarrow> (exn + int \<times> int) \<times> 'r ui_event list" where
  "fetch_voting_stats db =
     (case fetch_voting_stats_try db of
        Inr counts \<Rightarrow> (Inr counts, [])
      | Inl e \<Rightarrow> (Inr (0, 0), [StError (''Error fetching voting stats: '' @ str_exn e)]))"

text \<open>
  The read fails when some call to the store raises, or a fetched result has no first
  column to read.
\<close>

definition store_fails :: "store \<Rightarrow> bool" where
  "store_fails db \<longleftrightarrow>
     isl (connect db) \<or> isl (cursor db) \<or>
     isl (execute_voters db) \<or> isl (first_column (fetchone_voters db)) \<or>
     isl (execute_candidates db) \<or> isl (first_column (fetchone_candidates db)) \<or>
     isl (cur_close db) \<or> isl (conn_close db)"



section \<open>Properties of the reduction\<close>

subsection \<open>Lists of fallible steps\<close>

lemma traverse_total:
  "(\<And>x. x \<in> set xs \<Longrightarrow> \<exists>y. f x = Inr y \<and> P x y) \<Longrightarrow>
   \<exists>ys. traverse f xs = Inr ys \<and> list_all2 P xs ys"
proof (induction xs)
  case Nil
  show ?case by simp
next
  case (Cons x xs)
  from Cons.prems obtain y where y: "f x = Inr y" "P x y" by auto
  from Cons obtain ys where ys: "traverse f xs = Inr ys" "list_all2 P xs ys" by auto
  from y ys have "traverse f (x # xs) = Inr (y # ys) \<and> list_all2 P (x # xs) (y # ys)" by simp
  then show ?case by blast
qed

lemma traverse_cong:
  "(\<And>x. x \<in> set xs \<Longrightarrow> f x = g x) \<Longrightarrow> traverse f xs = traverse g xs"
  by (induction xs) (simp_all split: sum.splits)

lemma traverse_map_arg: "traverse f (map h xs) = traverse (\<lambda>x. f (h x)) xs"
  by (induction xs) (simp_all split: sum.splits)

lemma list_all2_rhs_mem:
  "list_all2 P xs ys \<Longrightarrow> y \<in> set ys \<Longrightarrow> \<exists>x\<in>set xs. P x y"
  by (induction rule: list_all2_induct) auto

lemma list_all2_map_eq: "list_all2 (\<lambda>x y. f y = x) xs ys \<Longrightarrow> map f ys = xs"
  by (induction rule: list_all2_induct) simp_all

subsection \<open>The first maximum of a series\<close>

lemma first_max_mem: "first_max b xs \<in> set (b # xs)"
  by (induction xs arbitrary: b) (simp, force)

lemma first_max_ge: "y \<in> set (b # xs) \<Longrightarrow> snd y \<le> snd (first_max b xs)"
proof (induction xs arbitrary: b y)
  case Nil
  then show ?case by simp
next
  case (Cons x xs)
  let ?b' = "if snd b < snd x then x else b"
  have step: "first_max b (x # xs) = first_max ?b' xs" by simp
  have b': "snd ?b' \<le> snd (first_max ?b' xs)"
    by (rule Cons.IH) simp
  from Cons.prems consider "y = b" | "y = x" | "y \<in> set xs" by auto
  then show ?case
  proof cases
    case 1
    with b' show ?thesis unfolding step by (simp split: if_splits)
  next
    case 2
    with b' show ?thesis unfolding step by (simp split: if_splits)
  next
    case 3
    then have "snd y \<le> snd (first_max ?b' xs)" by (intro Cons.IH) simp
    then show ?thesis unfolding step .
  qed
qed

lemma first_max_append: "first_max b (xs @ ys) = first_max (first_max b xs) ys"
  by (induction xs arbitrary: b) simp_all

lemma first_max_absorb: "(\<And>y. y \<in> set ys \<Longrightarrow> snd y \<le> snd b) \<Longrightarrow> first_max b ys = b"
  by (induction ys) (simp_all add: not_less [symmetric])

lemma first_max_split:
  "\<exists>ys zs. b # xs = ys @ first_max b xs # zs \<and> (\<forall>y\<in>set ys. snd y < snd (first_max b xs))"
proof (induction xs arbitrary: b)
  case Nil
  have "[b] = [] @ first_max b [] # [] \<and> (\<forall>y\<in>set []. snd y < snd (first_max b []))"
    by simp
  then show ?case by blast
next
  case (Cons x xs)
  show ?case
  proof (cases "snd b < snd x")
    case True
    then have fm: "first_max b (x # xs) = first_max x xs" by simp
    from Cons.IH [of x] obtain ys zs where
      d: "x # xs = ys @ first_max x xs # zs" and s: "\<forall>y\<in>set ys. snd y < snd (first_max x xs)"
      by blast
    have "snd x \<le> snd (first_max x xs)" by (rule first_max_ge) simp
    with True have lt: "snd b < snd (first_max x xs)" by simp
    have "b # x # xs = (b # ys) @ first_max x xs # zs" using d by simp
    moreover have "\<forall>y\<in>set (b # ys). snd y < snd (first_max x xs)" using s lt by simp
    ultimately show ?thesis unfolding fm by blast
  next
    case False
    then have fm: "first_max b (x # xs) = first_max b xs" by simp
    from Cons.IH [of b] obtain ys zs where
      d: "b # xs = ys @ first_max b xs # zs" and s: "\<forall>y\<in>set ys. snd y < snd (first_max b xs)"
      by blast
    show ?thesis
    proof (cases ys)
      case Nil
      have e: "b # xs = first_max b xs # zs"
        using d unfolding Nil append_Nil .
      have e1: "b = first_max b xs" by (rule conjunct1 [OF iffD1 [OF list.inject e]])
      have e2: "xs = zs" by (rule conjunct2 [OF iffD1 [OF list.inject e]])
      have "b # x # xs = [] @ b # (x # zs)" using e2 by simp
      with e1 have "b # x # xs = [] @ first_max b xs # (x # zs)" by metis
      moreover have "\<forall>y\<in>set []. snd y < snd (first_max b xs)" by simp
      ultimately show ?thesis unfolding fm by blast
    next
      case (Cons b' ys')
      have e: "b # xs = b' # (ys' @ first_max b xs # zs)"
        using d unfolding Cons append_Cons .
      have b': "b' = b" by (rule sym [OF conjunct1 [OF iffD1 [OF list.inject e]]])
      have xs: "xs = ys' @ first_max b xs # zs" by (rule conjunct2 [OF iffD1 [OF list.inject e]])
      from s Cons b' have lt: "snd b < snd (first_max b xs)" by simp
      with False have ltx: "snd x < snd (first_max b xs)" by simp
      have "b # x # xs = b # x # (ys' @ first_max b xs # zs)"
        by (rule arg_cong [OF xs])
      then have "b # x # xs = (b # x # ys') @ first_max b xs # zs"
        unfolding append_Cons .
      moreover have "\<forall>y\<in>set (b # x # ys'). snd y < snd (first_max b xs)"
        using s Cons lt ltx by simp
      ultimately show ?thesis unfolding fm by blast
    qed
  qed
qed

lemma column_append: "column c (g @ h) = column c g @ column c h"
  by (simp add: column_def)

lemma set_column: "set (column c g) = (\<lambda>(l, r). (l, c r)) ` set g"
  by (simp add: column_def)

lemma column_eq_Nil: "column c g = [] \<longleftrightarrow> g = []"
  by (simp add: column_def)

lemma idxmax_column_total:
  assumes "g \<noteq> []"
  shows "\<exists>l r. idxmax (column c g) = Inr l \<and> (l, r) \<in> set g \<and> (\<forall>(l', r')\<in>set g. c r' \<le> c r)"
proof -
  from assms obtain x xs where s: "column c g = x # xs"
    by (cases "column c g") (simp_all add: column_eq_Nil)
  let ?m = "first_max x xs"
  have "?m \<in> set (column c g)" unfolding s by (rule first_max_mem)
  then obtain l r where lr: "(l, r) \<in> set g" "?m = (l, c r)"
    by (auto simp: set_column)
  have "\<forall>(l', r')\<in>set g. c r' \<le> c r"
  proof (clarify)
    fix l' r' assume "(l', r') \<in> set g"
    then have "(l', c r') \<in> set (x # xs)" unfolding s [symmetric] by (force simp: set_column)
    from first_max_ge [OF this] lr show "c r' \<le> c r" by simp
  qed
  moreover have "idxmax (column c g) = Inr l" unfolding s using lr by simp
  ultimately show ?thesis using lr by blast
qed

lemma idxmax_append:
  assumes "s1 \<noteq> []" and "\<And>y. y \<in> set s2 \<Longrightarrow> \<exists>x\<in>set s1. snd y \<le> snd x"
  shows "idxmax (s1 @ s2) = idxmax s1"
proof -
  from assms(1) obtain x xs where s1: "s1 = x # xs" by (cases s1) auto
  have "first_max (first_max x xs) s2 = first_max x xs"
  proof (rule first_max_absorb)
    fix y assume "y \<in> set s2"
    from assms(2) [OF this] obtain z where z: "z \<in> set (x # xs)" "snd y \<le> snd z"
      unfolding s1 by blast
    from first_max_ge [OF z(1)] z(2) show "snd y \<le> snd (first_max x xs)" by simp
  qed
  then show ?thesis unfolding s1 by (simp add: first_max_append)
qed

subsection \<open>Frames built from a batch\<close>

lemma distinct_DataFrame: "distinct (map fst (DataFrame data))"
  by (simp add: DataFrame_def)

lemma map_snd_DataFrame: "map snd (DataFrame data) = data"
  by (simp add: DataFrame_def)

lemma DataFrame_append:
  "DataFrame (xs @ ys) = DataFrame xs @ enumerate (length xs) ys"
  by (simp add: DataFrame_def enumerate_append_eq)

lemma DataFrame_mem: "(l, r) \<in> set (DataFrame data) \<Longrightarrow> r \<in> set data"
  using map_snd_DataFrame [of data] by (metis list.set_map rev_image_eqI snd_conv)

lemma mem_DataFrame: "r \<in> set data \<Longrightarrow> \<exists>l. (l, r) \<in> set (DataFrame data)"
  using map_snd_DataFrame [of data] by (metis (no_types, lifting) imageE list.set_map prod.collapse)

lemma loc_row_mem:
  "distinct (map fst df) \<Longrightarrow> (l, r) \<in> set df \<Longrightarrow> loc_row df l = Inr r"
  by (simp add: loc_row_def)

lemma loc_append:
  assumes "\<And>l. l \<in> set labels \<Longrightarrow> l \<in> fst ` set df"
  shows "loc (df @ e) labels = loc df labels"
  unfolding loc_def
proof (rule traverse_cong)
  fix l assume "l \<in> set labels"
  from assms [OF this] have "l \<in> dom (map_of df)" by (simp add: dom_map_of_conv_image_fst)
  then have "map_of (df @ e) l = map_of df l" by (simp add: map_add_dom_app_simps)
  then show "(case loc_row (df @ e) l of Inl e \<Rightarrow> Inl e | Inr r \<Rightarrow> Inr (l, r)) =
        (case loc_row df l of Inl e \<Rightarrow> Inl e | Inr r \<Rightarrow> Inr (l, r))"
    by (simp add: loc_row_def)
qed

subsection \<open>What the reduction returns\<close>

lemma groupby_idxmax_keys:
  "groupby_idxmax key c df =
     traverse (\<lambda>k. idxmax (column c (filter (\<lambda>(l, r). key r = k) df)))
       (sort (remdups (map (key \<circ> snd) df)))"
  by (simp add: groupby_idxmax_def groupby_def traverse_map_arg)

lemma group_nonempty:
  "k \<in> set (sort (remdups (map (key \<circ> snd) df))) \<Longrightarrow> filter (\<lambda>(l, r). key r = k) df \<noteq> []"
  by (auto simp: filter_empty_conv)

lemma groupby_idxmax_char:
  "\<exists>labels. groupby_idxmax key c (DataFrame data) = Inr labels \<and>
     list_all2 (\<lambda>k l. \<exists>r. (l, r) \<in> set (DataFrame data) \<and> key r = k \<and>
                  (\<forall>r'\<in>set data. key r' = k \<longrightarrow> c r' \<le> c r))
       (sort (remdups (map key data))) labels"
proof -
  let ?df = "DataFrame data"
  let ?keys = "sort (remdups (map (key \<circ> snd) ?df))"
  let ?P1 = "\<lambda>k l. \<exists>r. (l, r) \<in> set ?df \<and> key r = k \<and> (\<forall>r'\<in>set data. key r' = k \<longrightarrow> c r' \<le> c r)"
  have keys: "?keys = sort (remdups (map key data))"
    by (simp add: map_snd_DataFrame flip: map_map)
  have rows: "r' \<in> set data \<Longrightarrow> \<exists>l'. (l', r') \<in> set ?df" for r'
    using map_snd_DataFrame [of data] by (metis (no_types, lifting) imageE list.set_map prod.collapse)
  have "\<exists>labels. traverse (\<lambda>k. idxmax (column c (filter (\<lambda>(l, r). key r = k) ?df))) ?keys = Inr labels
          \<and> list_all2 ?P1 ?keys labels"
  proof (rule traverse_total)
    fix k assume k: "k \<in> set ?keys"
    let ?g = "filter (\<lambda>(l, r). key r = k) ?df"
    from idxmax_column_total [OF group_nonempty [OF k], of c] obtain l r where
      lr: "idxmax (column c ?g) = Inr l" "(l, r) \<in> set ?g" "\<forall>(l', r')\<in>set ?g. c r' \<le> c r"
      by blast
    have "\<forall>r'\<in>set data. key r' = k \<longrightarrow> c r' \<le> c r"
    proof (intro ballI impI)
      fix r' assume "r' \<in> set data" "key r' = k"
      with rows obtain l' where "(l', r') \<in> set ?g" by auto
      with lr(3) show "c r' \<le> c r" by blast
    qed
    with lr show "\<exists>l. idxmax (column c ?g) = Inr l \<and> ?P1 k l" by auto
  qed
  then show ?thesis unfolding groupby_idxmax_keys keys .
qed

lemma reduce_batch_char:
  "\<exists>res. reduce_batch key c data = Inr res \<and>
     list_all2 (\<lambda>k (l, r). (l, r) \<in> set (DataFrame data) \<and> key r = k \<and>
                  (\<forall>r'\<in>set data. key r' = k \<longrightarrow> c r' \<le> c r))
       (sort (remdups (map key data))) res"
proof -
  let ?df = "DataFrame data"
  let ?keys = "sort (remdups (map key data))"
  let ?P1 = "\<lambda>k l. \<exists>r. (l, r) \<in> set ?df \<and> key r = k \<and> (\<forall>r'\<in>set data. key r' = k \<longrightarrow> c r' \<le> c r)"
  let ?Q = "\<lambda>l (l', r). l' = l \<and> loc_row ?df l = Inr r"
  let ?R = "\<lambda>k (l, r). (l, r) \<in> set ?df \<and> key r = k \<and> (\<forall>r'\<in>set data. key r' = k \<longrightarrow> c r' \<le> c r)"
  from groupby_idxmax_char [of key c data] obtain labels where
    labels: "groupby_idxmax key c ?df = Inr labels" and l2: "list_all2 ?P1 ?keys labels"
    by blast
  have "\<exists>res. traverse (\<lambda>l. case loc_row ?df l of Inl e \<Rightarrow> Inl e | Inr r \<Rightarrow> Inr (l, r)) labels = Inr res
          \<and> list_all2 ?Q labels res"
  proof (rule traverse_total)
    fix l assume "l \<in> set labels"
    from list_all2_rhs_mem [OF l2 this] obtain r where "(l, r) \<in> set ?df" by blast
    then have "loc_row ?df l = Inr r" by (rule loc_row_mem [OF distinct_DataFrame])
    then show "\<exists>y. (case loc_row ?df l of Inl e \<Rightarrow> Inl e | Inr r \<Rightarrow> Inr (l, r)) = Inr y \<and> ?Q l y"
      by simp
  qed
  then obtain res where res: "loc ?df labels = Inr res" and q: "list_all2 ?Q labels res"
    unfolding loc_def by blast
  have "list_all2 ?R ?keys res"
  proof (rule list_all2_trans [OF _ l2 q])
    fix k l x assume p: "?P1 k l" and "?Q l x"
    then obtain r' where x: "x = (l, r')" and r': "loc_row ?df l = Inr r'" by (cases x) auto
    from p obtain r where r: "(l, r) \<in> set ?df" "key r = k"
      "\<forall>r'\<in>set data. key r' = k \<longrightarrow> c r' \<le> c r" by blast
    from loc_row_mem [OF distinct_DataFrame r(1)] r' have "r' = r" by simp
    with x r show "?R k x" by simp
  qed
  moreover have "reduce_batch key c data = Inr res"
    by (simp add: reduce_batch_def labels res)
  ultimately show ?thesis by blast
qed

lemma reduce_batch_keys:
  assumes "reduce_batch key c data = Inr res"
  shows "map (key \<circ> snd) res = sort (remdups (map key data))"
proof -
  from reduce_batch_char [of key c data] assms
  have "list_all2 (\<lambda>k (l, r). (l, r) \<in> set (DataFrame data) \<and> key r = k \<and>
                  (\<forall>r'\<in>set data. key r' = k \<longrightarrow> c r' \<le> c r))
       (sort (remdups (map key data))) res" by auto
  then have "list_all2 (\<lambda>k x. (key \<circ> snd) x = k) (sort (remdups (map key data))) res"
    by (rule list_all2_mono) auto
  then show ?thesis by (rule list_all2_map_eq)
qed

lemma reduce_batch_rows:
  assumes "reduce_batch key c data = Inr res" and "(l, r) \<in> set res"
  shows "(l, r) \<in> set (DataFrame data) \<and> (\<forall>r'\<in>set data. key r' = key r \<longrightarrow> c r' \<le> c r)"
proof -
  from reduce_batch_char [of key c data] assms(1)
  have "list_all2 (\<lambda>k (l, r). (l, r) \<in> set (DataFrame data) \<and> key r = k \<and>
                  (\<forall>r'\<in>set data. key r' = k \<longrightarrow> c r' \<le> c r))
       (sort (remdups (map key data))) res" by auto
  from list_all2_rhs_mem [OF this assms(2)] show ?thesis by auto
qed

lemma reduce_batch_append_absorb:
  assumes sub: "set C \<subseteq> set B"
  shows "reduce_batch key c (B @ C) = reduce_batch key c B"
proof -
  let ?df = "DataFrame B"
  let ?e = "enumerate (length B) C"
  have df': "DataFrame (B @ C) = ?df @ ?e" by (rule DataFrame_append)
  have snd_e: "map snd ?e = C" by simp
  have "set (map (key \<circ> snd) (?df @ ?e)) = set (map (key \<circ> snd) ?df)"
  proof -
    have "map (key \<circ> snd) (?df @ ?e) = map key (map snd ?df) @ map key (map snd ?e)"
      by (simp only: map_append map_map)
    also have "\<dots> = map key B @ map key C" by (simp only: map_snd_DataFrame snd_e)
    finally have "set (map (key \<circ> snd) (?df @ ?e)) = key ` set B \<union> key ` set C" by simp
    also have "\<dots> = key ` set B" using sub by auto
    also have "\<dots> = set (map (key \<circ> snd) ?df)"
      by (simp add: map_snd_DataFrame flip: map_map)
    finally show ?thesis .
  qed
  then have keys: "sort (remdups (map (key \<circ> snd) (?df @ ?e))) = sort (remdups (map (key \<circ> snd) ?df))"
    by (simp only: sorted_list_of_set_sort_remdups [symmetric])
  have g: "groupby_idxmax key c (?df @ ?e) = groupby_idxmax key c ?df"
    unfolding groupby_idxmax_keys keys
  proof (rule traverse_cong)
    fix k assume k: "k \<in> set (sort (remdups (map (key \<circ> snd) ?df)))"
    let ?P = "\<lambda>(l, r). key r = k"
    have "idxmax (column c (filter ?P ?df) @ column c (filter ?P ?e)) = idxmax (column c (filter ?P ?df))"
    proof (rule idxmax_append)
      show "column c (filter ?P ?df) \<noteq> []"
        using group_nonempty [OF k] by (simp add: column_eq_Nil)
    next
      fix y assume "y \<in> set (column c (filter ?P ?e))"
      then obtain l r where y: "y = (l, c r)" and lr: "(l, r) \<in> set ?e" "key r = k"
        by (auto simp: set_column)
      from lr(1) have "r \<in> set (map snd ?e)" by (metis list.set_map rev_image_eqI snd_conv)
      with sub have "r \<in> set B" unfolding snd_e by blast
      from mem_DataFrame [OF this] obtain l' where "(l', r) \<in> set ?df" by blast
      with lr(2) have "(l', c r) \<in> set (column c (filter ?P ?df))"
        by (force simp: set_column)
      with y show "\<exists>x\<in>set (column c (filter ?P ?df)). snd y \<le> snd x" by force
    qed
    then show "idxmax (column c (filter ?P (?df @ ?e))) = idxmax (column c (filter ?P ?df))"
      by (simp add: column_append)
  qed
  from groupby_idxmax_char [of key c B] obtain labels where
    labels: "groupby_idxmax key c ?df = Inr labels"
    and l2: "list_all2 (\<lambda>k l. \<exists>r. (l, r) \<in> set ?df \<and> key r = k \<and>
                  (\<forall>r'\<in>set B. key r' = k \<longrightarrow> c r' \<le> c r))
       (sort (remdups (map key B))) labels" by blast
  have "loc (?df @ ?e) labels = loc ?df labels"
  proof (rule loc_append)
    fix l assume "l \<in> set labels"
    from list_all2_rhs_mem [OF l2 this] obtain r where "(l, r) \<in> set ?df" by blast
    then show "l \<in> fst ` set ?df" by force
  qed
  then show ?thesis
    by (simp add: reduce_batch_def df' g labels)
qed

lemma leading_char:
  assumes "res \<noteq> []"
  shows "\<exists>l lead ys zs. idxmax (column c res) = Inr l \<and> res = ys @ (l, lead) # zs \<and>
           (\<forall>(l', r')\<in>set ys. c r' < c lead) \<and> (\<forall>(l', r')\<in>set res. c r' \<le> c lead)"
proof -
  let ?f = "\<lambda>(l, r). (l, c r)"
  from assms obtain x xs where s: "column c res = x # xs"
    by (cases "column c res") (simp_all add: column_eq_Nil)
  let ?m = "first_max x xs"
  from first_max_split [of x xs] obtain ys0 zs0 where
    d: "x # xs = ys0 @ ?m # zs0" and lt: "\<forall>y\<in>set ys0. snd y < snd ?m" by blast
  from s d have "map ?f res = ys0 @ ?m # zs0" by (simp add: column_def)
  then obtain ys zs' where r1: "res = ys @ zs'" "map ?f ys = ys0" "map ?f zs' = ?m # zs0"
    by (auto simp: map_eq_append_conv)
  from r1(3) obtain p zs where r2: "zs' = p # zs" "?f p = ?m"
    by (auto simp: map_eq_Cons_conv)
  obtain l lead where p: "p = (l, lead)" by (cases p)
  with r2 have m: "?m = (l, c lead)" by simp
  have a: "idxmax (column c res) = Inr l" unfolding s using m by simp
  have b: "res = ys @ (l, lead) # zs" using r1(1) r2(1) p by simp
  have c1: "\<forall>(l', r')\<in>set ys. c r' < c lead"
  proof (clarify)
    fix l' r' assume "(l', r') \<in> set ys"
    then have "?f (l', r') \<in> set ys0" unfolding r1(2) [symmetric] by (metis image_eqI list.set_map)
    with lt m show "c r' < c lead" by auto
  qed
  have c2: "\<forall>(l', r')\<in>set res. c r' \<le> c lead"
  proof (clarify)
    fix l' r' assume "(l', r') \<in> set res"
    then have "(l', c r') \<in> set (x # xs)" unfolding s [symmetric] by (force simp: set_column)
    from first_max_ge [OF this] m show "c r' \<le> c lead" by simp
  qed
  from a b c1 c2 show ?thesis by blast
qed

subsection \<open>One record per key, holding the maximum\<close>

text \<open>
  Claim C1. For every batch of partial-aggregate records, the reduction (groupby on the
  grouping key, then per-group idxmax on the counter) never raises and produces exactly
  one reduced record per distinct grouping key of the batch: the keys of the reduced
  frame are pairwise distinct and are exactly the keys that occur in the batch. Every
  reduced record is a record of the batch, and its counter is the maximum counter among
  the records of the batch that share its key.
\<close>

theorem reduce_batch_one_max_record_per_key:
  "\<exists>res. reduce_batch key c data = Inr res \<and>
     distinct (map (key \<circ> snd) res) \<and>
     set (map (key \<circ> snd) res) = key ` set data \<and>
     (\<forall>(l, r)\<in>set res. r \<in> set data \<and> c r = Max (c ` {r' \<in> set data. key r' = key r}))"
proof -
  from reduce_batch_char [of key c data] obtain res where
    res: "reduce_batch key c data = Inr res" by blast
  have keys: "map (key \<circ> snd) res = sort (remdups (map key data))"
    by (rule reduce_batch_keys [OF res])
  have d: "distinct (map (key \<circ> snd) res)" unfolding keys by simp
  have s: "set (map (key \<circ> snd) res) = key ` set data" unfolding keys by simp
  have m: "\<forall>(l, r)\<in>set res. r \<in> set data \<and> c r = Max (c ` {r' \<in> set data. key r' = key r})"
  proof (clarify)
    fix l r assume "(l, r) \<in> set res"
    from reduce_batch_rows [OF res this]
    have mem: "(l, r) \<in> set (DataFrame data)"
      and ge: "\<forall>r'\<in>set data. key r' = key r \<longrightarrow> c r' \<le> c r" by simp_all
    from mem have r: "r \<in> set data" by (rule DataFrame_mem)
    have "Max (c ` {r' \<in> set data. key r' = key r}) = c r"
    proof (rule Max_eqI)
      show "finite (c ` {r' \<in> set data. key r' = key r})" by simp
      show "\<And>y. y \<in> c ` {r' \<in> set data. key r' = key r} \<Longrightarrow> y \<le> c r" using ge by auto
      show "c r \<in> c ` {r' \<in> set data. key r' = key r}" using r by auto
    qed
    with r show "r \<in> set data \<and> c r = Max (c ` {r' \<in> set data. key r' = key r})" by simp
  qed
  from res d s m show ?thesis by blast
qed

theorem reduce_batch_one_max_record_per_key_witness:
  "reduce_batch state count [\<lparr>state = ''A'', count = 10\<rparr>, \<lparr>state = ''B'', count = 30\<rparr>, \<lparr>state = ''A'', count = 25\<rparr>] = Inr [(2, \<lparr>state = ''A'', count = 25\<rparr>), (1, \<lparr>state = ''B'', count = 30\<rparr>)]
   \<and> count \<lparr>state = ''A'', count = 25\<rparr> = Max (count ` {r' \<in> set [\<lparr>state = ''A'', count = 10\<rparr>, \<lparr>state = ''B'', count = 30\<rparr>, \<lparr>state = ''A'', count = 25\<rparr>]. state r' = state \<lparr>state = ''A'', count = 25\<rparr>})
   \<and> count \<lparr>state = ''B'', count = 30\<rparr> = Max (count ` {r' \<in> set [\<lparr>state = ''A'', count = 10\<rparr>, \<lparr>state = ''B'', count = 30\<rparr>, \<lparr>state = ''A'', count = 25\<rparr>]. state r' = state \<lparr>state = ''B'', count = 30\<rparr>})"
proof -
  let ?B = "[\<lparr>state = ''A'', count = 10\<rparr>, \<lparr>state = ''B'', count = 30\<rparr>, \<lparr>state = ''A'', count = 25\<rparr>]"
  have ev: "reduce_batch state count ?B = Inr [(2, \<lparr>state = ''A'', count = 25\<rparr>), (1, \<lparr>state = ''B'', count = 30\<rparr>)]"
    by code_simp
  from reduce_batch_one_max_record_per_key [of state count ?B] obtain res where
    res: "reduce_batch state count ?B = Inr res"
    and m: "\<forall>(l, r)\<in>set res. r \<in> set ?B \<and> count r = Max (count ` {r' \<in> set ?B. state r' = state r})"
    by blast
  from res ev have "res = [(2, \<lparr>state = ''A'', count = 25\<rparr>), (1, \<lparr>state = ''B'', count = 30\<rparr>)]" by simp
  with m have "count \<lparr>state = ''A'', count = 25\<rparr> = Max (count ` {r' \<in> set ?B. state r' = state \<lparr>state = ''A'', count = 25\<rparr>})"
    and "count \<lparr>state = ''B'', count = 30\<rparr> = Max (count ` {r' \<in> set ?B. state r' = state \<lparr>state = ''B'', count = 30\<rparr>})"
    by simp_all
  with ev show ?thesis by blast
qed

subsection \<open>The leading record\<close>

text \<open>
  Claim C2, as stated, fails. The batch below holds two keys that tie on the maximum
  counter, \<open>B\<close> first and \<open>A\<close> second. The reduced frame lists its groups in ascending key
  order, so the first maximum of the reduced frame is the record of \<open>A\<close>, while the key
  that appears first in the batch among the tied ones is \<open>B\<close>.
\<close>

theorem leading_first_seen_counterexample:
  "reduce_batch state count [\<lparr>state = ''B'', count = 5\<rparr>, \<lparr>state = ''A'', count = 5\<rparr>] = Inr [(1, \<lparr>state = ''A'', count = 5\<rparr>), (0, \<lparr>state = ''B'', count = 5\<rparr>)]
   \<and> leading count [(1, \<lparr>state = ''A'', count = 5\<rparr>), (0, \<lparr>state = ''B'', count = 5\<rparr>)] = Inr \<lparr>state = ''A'', count = 5\<rparr>
   \<and> spec_first_seen_leader state count [\<lparr>state = ''B'', count = 5\<rparr>, \<lparr>state = ''A'', count = 5\<rparr>] = Some ''B''
   \<and> Some (state \<lparr>state = ''A'', count = 5\<rparr>) \<noteq> spec_first_seen_leader state count [\<lparr>state = ''B'', count = 5\<rparr>, \<lparr>state = ''A'', count = 5\<rparr>]"
  by code_simp

text \<open>
  Claim C2, amended. For every non-empty batch the reduction and the selection of the
  leading record both succeed; the leading record is a record of the batch, its counter
  is the maximum counter of the whole batch, and when several keys tie on that maximum
  the leading record is the one with the smallest grouping key (the groups are listed
  in ascending key order and the first maximum is taken).
\<close>

theorem leading_max_counter_smallest_key:
  assumes nonempty: "data \<noteq> []"
  shows "\<exists>res lead. reduce_batch key c data = Inr res \<and> leading c res = Inr lead \<and>
           lead \<in> set data \<and> (\<forall>r\<in>set data. c r \<le> c lead) \<and>
           (\<forall>r\<in>set data. c r = c lead \<longrightarrow> key lead \<le> key r)"
proof -
  let ?df = "DataFrame data"
  from reduce_batch_char [of key c data] obtain res where
    res: "reduce_batch key c data = Inr res" by blast
  have keys: "map (key \<circ> snd) res = sort (remdups (map key data))"
    by (rule reduce_batch_keys [OF res])
  from nonempty have "sort (remdups (map key data)) \<noteq> []"
    by (metis list.map_disc_iff remdups_eq_nil_iff set_empty set_sort)
  with keys have "res \<noteq> []" by auto
  from leading_char [OF this, of c] obtain l lead ys zs where
    ix: "idxmax (column c res) = Inr l" and sp: "res = ys @ (l, lead) # zs"
    and before: "\<forall>(l', r')\<in>set ys. c r' < c lead" and all: "\<forall>(l', r')\<in>set res. c r' \<le> c lead"
    by blast
  have in_res: "(l, lead) \<in> set res" unfolding sp by simp
  from reduce_batch_rows [OF res in_res] have in_df: "(l, lead) \<in> set ?df" by simp
  then have lead_data: "lead \<in> set data" by (rule DataFrame_mem)
  have "loc_row res l = Inr lead"
  proof -
    from weak_map_of_SomeI [OF in_res] obtain r0 where r0: "map_of res l = Some r0" by blast
    then have "(l, r0) \<in> set res" by (rule map_of_SomeD)
    from reduce_batch_rows [OF res this] have "(l, r0) \<in> set ?df" by simp
    with in_df distinct_DataFrame [of data] have "r0 = lead"
      by (metis map_of_is_SomeI option.inject)
    with r0 show ?thesis by (simp add: loc_row_def)
  qed
  with ix have lead: "leading c res = Inr lead" by (simp add: leading_def)
  have rep: "\<exists>l' r'. (l', r') \<in> set res \<and> key r' = key r \<and> c r \<le> c r'" if "r \<in> set data" for r
  proof -
    from that have "key r \<in> set (map (key \<circ> snd) res)" unfolding keys by simp
    then obtain l' r' where m: "(l', r') \<in> set res" "key r' = key r" by auto
    from reduce_batch_rows [OF res m(1)] that m(2) have "c r \<le> c r'" by simp
    with m show ?thesis by blast
  qed
  have mx: "\<forall>r\<in>set data. c r \<le> c lead"
  proof
    fix r assume "r \<in> set data"
    from rep [OF this] obtain l' r' where "(l', r') \<in> set res" "c r \<le> c r'" by blast
    with all show "c r \<le> c lead" by force
  qed
  have tie: "\<forall>r\<in>set data. c r = c lead \<longrightarrow> key lead \<le> key r"
  proof (intro ballI impI)
    fix r assume r: "r \<in> set data" and eq: "c r = c lead"
    from rep [OF r] obtain l' r' where m: "(l', r') \<in> set res" "key r' = key r" "c r \<le> c r'"
      by blast
    from m(3) eq have ge: "c lead \<le> c r'" by simp
    have "sorted (map (key \<circ> snd) res)" unfolding keys by simp
    then have srt: "\<forall>x\<in>set zs. key lead \<le> key (snd x)"
      unfolding sp by (simp add: sorted_append)
    from m(1) have "(l', r') \<in> set ys \<or> (l', r') = (l, lead) \<or> (l', r') \<in> set zs"
      unfolding sp by auto
    then have "key lead \<le> key r'"
    proof (elim disjE)
      assume "(l', r') \<in> set ys"
      with before have "c r' < c lead" by blast
      with ge show ?thesis by simp
    next
      assume "(l', r') = (l, lead)"
      then show ?thesis by simp
    next
      assume "(l', r') \<in> set zs"
      with srt show ?thesis by force
    qed
    with m(2) show "key lead \<le> key r" by simp
  qed
  from res lead lead_data mx tie show ?thesis by blast
qed

theorem leading_max_counter_smallest_key_witness:
  "[\<lparr>state = ''B'', count = 5\<rparr>, \<lparr>state = ''A'', count = 5\<rparr>] \<noteq> []
   \<and> reduce_batch state count [\<lparr>state = ''B'', count = 5\<rparr>, \<lparr>state = ''A'', count = 5\<rparr>] = Inr [(1, \<lparr>state = ''A'', count = 5\<rparr>), (0, \<lparr>state = ''B'', count = 5\<rparr>)]
   \<and> leading count [(1, \<lparr>state = ''A'', count = 5\<rparr>), (0, \<lparr>state = ''B'', count = 5\<rparr>)] = Inr \<lparr>state = ''A'', count = 5\<rparr>
   \<and> count \<lparr>state = ''B'', count = 5\<rparr> \<le> count \<lparr>state = ''A'', count = 5\<rparr>
   \<and> state \<lparr>state = ''A'', count = 5\<rparr> \<le> state \<lparr>state = ''B'', count = 5\<rparr>"
proof -
  let ?B = "[\<lparr>state = ''B'', count = 5\<rparr>, \<lparr>state = ''A'', count = 5\<rparr>]"
  have ne: "?B \<noteq> []" by simp
  have ev1: "reduce_batch state count ?B = Inr [(1, \<lparr>state = ''A'', count = 5\<rparr>), (0, \<lparr>state = ''B'', count = 5\<rparr>)]" by code_simp
  have ev2: "leading count [(1, \<lparr>state = ''A'', count = 5\<rparr>), (0, \<lparr>state = ''B'', count = 5\<rparr>)] = Inr \<lparr>state = ''A'', count = 5\<rparr>" by code_simp
  from leading_max_counter_smallest_key [OF ne, of state count] obtain res lead where
    res: "reduce_batch state count ?B = Inr res" and lead: "leading count res = Inr lead"
    and mx: "\<forall>r\<in>set ?B. count r \<le> count lead"
    and tie: "\<forall>r\<in>set ?B. count r = count lead \<longrightarrow> state lead \<le> state r"
    by blast
  from res ev1 have "res = [(1, \<lparr>state = ''A'', count = 5\<rparr>), (0, \<lparr>state = ''B'', count = 5\<rparr>)]" by simp
  with lead ev2 have l: "lead = \<lparr>state = ''A'', count = 5\<rparr>" by simp
  from mx have "count \<lparr>state = ''B'', count = 5\<rparr> \<le> count lead" by simp
  moreover from tie have "count \<lparr>state = ''B'', count = 5\<rparr> = count lead \<longrightarrow> state lead \<le> state \<lparr>state = ''B'', count = 5\<rparr>" by simp
  ultimately have "count \<lparr>state = ''B'', count = 5\<rparr> \<le> count \<lparr>state = ''A'', count = 5\<rparr>" and "state \<lparr>state = ''A'', count = 5\<rparr> \<le> state \<lparr>state = ''B'', count = 5\<rparr>"
    unfolding l by simp_all
  with ne ev1 ev2 show ?thesis by blast
qed

subsection \<open>Duplicated records\<close>

text \<open>
  Claim C3. For every batch \<open>B\<close>, reducing the concatenation of \<open>B\<close> with itself yields the
  same reduced frame as reducing \<open>B\<close> alone: the same rows, in the same order, with the
  same labels and contents.
\<close>

theorem reduce_batch_duplication_idempotent:
  "reduce_batch key c (B @ B) = reduce_batch key c B"
  by (rule reduce_batch_append_absorb) simp



section \<open>Properties of the paginator\<close>

subsection \<open>The chunks of \<open>split_frame\<close>\<close>

lemma iloc_slice_window:
  assumes "0 \<le> i" and "0 < b"
  shows "iloc_slice df i (i + b) = take (nat b) (drop (nat i) df)"
proof (cases "i \<le> int (length df)")
  case True
  let ?n = "int (length df)"
  from assms True have lo: "(if i < 0 then max 0 (?n + i) else min i ?n) = i" by simp
  from assms have hi: "(if i + b < 0 then max 0 (?n + (i + b)) else min (i + b) ?n) = min (i + b) ?n"
    by simp
  have "iloc_slice df i (i + b) = take (nat (min (i + b) ?n - i)) (drop (nat i) df)"
    unfolding iloc_slice_def Let_def lo hi ..
  also have "nat (min (i + b) ?n - i) = min (nat b) (length df - nat i)"
    using assms True by linarith
  also have "take (min (nat b) (length df - nat i)) (drop (nat i) df) = take (nat b) (drop (nat i) df)"
    by (simp add: min_def)
  finally show ?thesis .
next
  case False
  let ?n = "int (length df)"
  from assms False have lo: "(if i < 0 then max 0 (?n + i) else min i ?n) = ?n" by simp
  from assms False have hi: "(if i + b < 0 then max 0 (?n + (i + b)) else min (i + b) ?n) = ?n"
    by simp
  have "iloc_slice df i (i + b) = take (nat (?n - ?n)) (drop (nat ?n) df)"
    unfolding iloc_slice_def Let_def lo hi ..
  then have "iloc_slice df i (i + b) = []" by simp
  moreover from False assms have "drop (nat i) df = []" by simp
  ultimately show ?thesis by simp
qed

lemma py_range_chunks:
  assumes "0 < b"
  shows "py_range 0 (int n) b = Inr (map (\<lambda>k. int k * b) [0..<n_chunks n (nat b)])"
proof (cases "n = 0")
  case True
  with assms show ?thesis by (simp add: py_range_def n_chunks_def)
next
  case False
  then have n: "0 < n" by simp
  from assms have b': "b = int (nat b)" by simp
  have "(int n - 1) div int (nat b) = int ((n - 1) div nat b)"
    using n by (simp add: zdiv_int of_nat_diff)
  with b' have "(int n - 1) div b = int ((n - 1) div nat b)" by simp
  then have "nat ((int n - 0 - 1) div b + 1) = (n - 1) div nat b + 1" by simp
  with assms n show ?thesis by (simp add: py_range_def n_chunks_def)
qed

lemma split_frame_chunks:
  assumes "0 < b"
  shows "split_frame t b =
           Inr (map (\<lambda>k. take (nat b) (drop (k * nat b) t)) [0..<n_chunks (length t) (nat b)])"
proof -
  have w: "iloc_slice t (int k * b) (int k * b + b) = take (nat b) (drop (k * nat b) t)" for k
  proof -
    from assms have "nat (int k * b) = k * nat b" by (simp add: nat_mult_distrib)
    moreover from assms have "0 \<le> int k * b" by simp
    ultimately show ?thesis using iloc_slice_window [of "int k * b" b t] assms by simp
  qed
  show ?thesis
    unfolding split_frame_def and_then_def py_range_chunks [OF assms]
    by (simp add: w comp_def)
qed

lemma concat_chunks: "concat (map (\<lambda>k. take b (drop (k * b) t)) [0..<m]) = take (m * b) t"
proof (induction m)
  case 0
  show ?case by simp
next
  case (Suc m)
  have "Suc m * b = m * b + b" by simp
  then have "take (Suc m * b) t = take (m * b) t @ take b (drop (m * b) t)"
    by (simp only: take_add)
  with Suc show ?case by simp
qed

lemma n_chunks_covers:
  assumes "0 < b"
  shows "n \<le> n_chunks n b * b"
proof (cases "n = 0")
  case True
  then show ?thesis by simp
next
  case False
  have "(n - 1) mod b < b" using assms by simp
  moreover have "n - 1 = (n - 1) div b * b + (n - 1) mod b" by simp
  ultimately have "n - 1 < (n - 1) div b * b + b" by linarith
  with False show ?thesis by (simp add: n_chunks_def)
qed

lemma floor_le_n_chunks:
  assumes "0 < b" and "0 < n"
  shows "max 1 (n div b) \<le> n_chunks n b"
proof -
  have "n div b * b \<le> n" by simp
  also have "n \<le> n_chunks n b * b" by (rule n_chunks_covers [OF assms(1)])
  finally have "n div b \<le> n_chunks n b" using assms(1) by simp
  moreover from assms(2) have "1 \<le> n_chunks n b" by (simp add: n_chunks_def)
  ultimately show ?thesis by simp
qed

lemma split_frame_concat_aux:
  assumes "0 < b"
  shows "\<exists>pages. split_frame t b = Inr pages \<and> concat pages = t \<and>
           length pages = n_chunks (length t) (nat b)"
proof -
  let ?pages = "map (\<lambda>k. take (nat b) (drop (k * nat b) t)) [0..<n_chunks (length t) (nat b)]"
  from assms have "0 < nat b" by simp
  then have "length t \<le> n_chunks (length t) (nat b) * nat b" by (rule n_chunks_covers)
  then have "concat ?pages = t" by (simp only: concat_chunks take_all)
  moreover have "length ?pages = n_chunks (length t) (nat b)" by simp
  ultimately show ?thesis using split_frame_chunks [OF assms, of t] by blast
qed

lemma select_page_chunk:
  assumes "0 < b" and "1 \<le> p" and "nat (p - 1) < n_chunks (length t) (nat b)"
  shows "select_page t b p = Inr (take (nat b) (drop (nat (p - 1) * nat b) t))"
proof -
  let ?m = "n_chunks (length t) (nat b)"
  let ?pages = "map (\<lambda>k. take (nat b) (drop (k * nat b) t)) [0..<?m]"
  from assms(2,3) have r: "0 \<le> p - 1 \<and> p - 1 < int (length ?pages)" by simp
  then have "getitem ?pages (p - 1) = Inr (?pages ! nat (p - 1))"
    unfolding getitem_def by (simp only: simp_thms if_True)
  also have "?pages ! nat (p - 1) = take (nat b) (drop (nat (p - 1) * nat b) t)"
    using assms(3) by simp
  finally show ?thesis
    unfolding select_page_def and_then_def split_frame_chunks [OF assms(1)] by simp
qed

lemma total_pages_div:
  assumes "0 < b"
  shows "total_pages t b = Inr (max 1 (int (length t) div b))"
  using assms by (simp add: total_pages_def floordiv_def and_then_def)

lemma total_pages_le_chunks:
  assumes "0 < b" and "t \<noteq> []"
  shows "max 1 (int (length t) div b) \<le> int (n_chunks (length t) (nat b))"
proof -
  from assms(1) have b: "b = int (nat b)" "0 < nat b" by simp_all
  from assms(2) have "0 < length t" by simp
  from floor_le_n_chunks [OF b(2) this]
  have "int (max 1 (length t div nat b)) \<le> int (n_chunks (length t) (nat b))" by simp
  moreover have "int (max 1 (length t div nat b)) = max 1 (int (length t div nat b))"
    by (simp add: max_def)
  moreover have "int (length t div nat b) = int (length t) div int (nat b)"
    by (rule zdiv_int)
  ultimately show ?thesis using b(1) by simp
qed

lemma paginate_table_nonempty:
  assumes "table_data \<noteq> []"
    and "sort_step sort_values ui table_data = (shown, sort_events)"
    and "total_pages shown (batch_size ui) = Inr n_pages"
    and "select_page shown (batch_size ui) (current_page ui) = Inr page"
  shows "paginate_table sort_values ui table_data =
           (Inr (),
            [StColumns 3] @ sort_events @ [StColumns 3, StSelectbox ''Page Size''] @
            [StNumberInput ''Page'' 1 n_pages,
             StMarkdown (''Page **'' @ str_int (current_page ui) @ ''** of **''
                         @ str_int n_pages @ ''** '')] @
            [StDataframe page])"
  using assms by (simp add: paginate_table_def)

subsection \<open>The reported number of pages\<close>

text \<open>
  Claim C5. For every table and every positive page size, the total page count computed
  at line 106 equals \<open>max(1, floor(row_count / page_size))\<close>, the floor taken of the real
  quotient; the row count is that of the table after the optional sort. For a non-empty
  table this is the number the paginator reports as the upper bound of the page input
  (for an empty table it reports nothing).
\<close>

theorem reported_total_pages_max_one_floor:
  assumes "0 < batch_size ui"
  shows "total_pages (fst (sort_step sort_values ui table_data)) (batch_size ui) =
           Inr (max 1 \<lfloor>real (length (fst (sort_step sort_values ui table_data)))
                        / real_of_int (batch_size ui)\<rfloor>)
         \<and> (table_data \<noteq> [] \<longrightarrow>
              StNumberInput ''Page'' 1
                (max 1 \<lfloor>real (length (fst (sort_step sort_values ui table_data)))
                          / real_of_int (batch_size ui)\<rfloor>)
              \<in> set (snd (paginate_table sort_values ui table_data)))"
proof -
  obtain shown sort_events where st: "sort_step sort_values ui table_data = (shown, sort_events)"
    by (cases "sort_step sort_values ui table_data")
  let ?n = "max 1 \<lfloor>real (length shown) / real_of_int (batch_size ui)\<rfloor>"
  have "\<lfloor>real (length shown) / real_of_int (batch_size ui)\<rfloor> =
        \<lfloor>real_of_int (int (length shown)) / real_of_int (batch_size ui)\<rfloor>" by simp
  also have "\<dots> = int (length shown) div batch_size ui"
    by (rule floor_divide_of_int_eq)
  finally have tp: "total_pages shown (batch_size ui) = Inr ?n"
    using total_pages_div [OF assms, of shown] by simp
  have "StNumberInput ''Page'' 1 ?n \<in> set (snd (paginate_table sort_values ui table_data))"
    if "table_data \<noteq> []"
    using that by (simp add: paginate_table_def st tp Let_def split: sum.splits)
  with tp st show ?thesis by simp
qed

theorem reported_total_pages_max_one_floor_witness:
  "0 < batch_size \<lparr>sort_option = ''No'', sort_field = ''state'', sort_direction = Up,
                    batch_size = 10, current_page = 1\<rparr>
   \<and> DataFrame [0..<23::nat] \<noteq> []
   \<and> total_pages (DataFrame [0..<23::nat]) 10 = Inr 2
   \<and> StNumberInput ''Page'' 1 2
       \<in> set (snd (paginate_table (\<lambda>f asc df. df)
                     \<lparr>sort_option = ''No'', sort_field = ''state'', sort_direction = Up,
                      batch_size = 10, current_page = 1\<rparr> (DataFrame [0..<23::nat])))"
proof -
  let ?ui = "\<lparr>sort_option = ''No'', sort_field = ''state'', sort_direction = Up,
              batch_size = 10, current_page = 1\<rparr>"
  let ?t = "DataFrame [0..<23::nat]"
  have h1: "?t \<noteq> []" by code_simp
  have h2: "0 < batch_size ?ui" by simp
  have shown: "fst (sort_step (\<lambda>f asc df. df) ?ui ?t) = ?t" by (simp add: sort_step_def)
  have len: "length ?t = 23" by (simp add: DataFrame_def)
  have fl: "max 1 \<lfloor>real (23::nat) / real_of_int 10\<rfloor> = 2" by simp
  from reported_total_pages_max_one_floor [OF h2, of "\<lambda>f asc df. df" ?t] h1
  have "total_pages ?t 10 = Inr 2 \<and>
        StNumberInput ''Page'' 1 2 \<in> set (snd (paginate_table (\<lambda>f asc df. df) ?ui ?t))"
    unfolding shown len fl by simp
  with h1 h2 show ?thesis by blast
qed

subsection \<open>Twenty-three rows, ten per page\<close>

text \<open>
  Claim C6, as stated, fails: for a table of 23 rows and page size 10, the second page
  holds 10 rows (the rows at positions 10 to 19), not 13.
\<close>

theorem paginate_23_rows_page_two_counterexample:
  "map_sum id length (select_page (DataFrame [0..<23::nat]) 10 2) = Inr 10
   \<and> map_sum id length (select_page (DataFrame [0..<23::nat]) 10 2) \<noteq> Inr 13"
  by code_simp

text \<open>
  Claim C6, amended. For a table of 23 rows and page size 10, the paginator reports
  \<open>total_pages = 2\<close>, page 1 contains 10 rows, and page 2 contains 10 rows.
\<close>

theorem paginate_23_rows_page_size_10:
  assumes "length table_data = 23"
  shows "total_pages table_data 10 = Inr 2
         \<and> map_sum id length (select_page table_data 10 1) = Inr 10
         \<and> map_sum id length (select_page table_data 10 2) = Inr 10"
proof -
  have n: "n_chunks 23 10 = 3" by (simp add: n_chunks_def)
  have "select_page table_data 10 1 = Inr (take (nat 10) (drop (nat (1 - 1) * nat 10) table_data))"
    by (rule select_page_chunk) (simp_all add: assms n)
  then have p1: "map_sum id length (select_page table_data 10 1) = Inr 10"
    by (simp add: assms)
  have "select_page table_data 10 2 = Inr (take (nat 10) (drop (nat (2 - 1) * nat 10) table_data))"
    by (rule select_page_chunk) (simp_all add: assms n)
  then have p2: "map_sum id length (select_page table_data 10 2) = Inr 10"
    by (simp add: assms)
  have "total_pages table_data 10 = Inr 2"
    by (simp add: total_pages_div assms)
  with p1 p2 show ?thesis by blast
qed

theorem paginate_23_rows_page_size_10_witness:
  "length (DataFrame [0..<23::nat]) = 23
   \<and> total_pages (DataFrame [0..<23::nat]) 10 = Inr 2
   \<and> map_sum id length (select_page (DataFrame [0..<23::nat]) 10 1) = Inr 10
   \<and> map_sum id length (select_page (DataFrame [0..<23::nat]) 10 2) = Inr 10"
proof -
  have h: "length (DataFrame [0..<23::nat]) = 23" by (simp add: DataFrame_def)
  from h paginate_23_rows_page_size_10 [OF h] show ?thesis by blast
qed

subsection \<open>The chunks cover the table\<close>

text \<open>
  Claim C7. For every input table and every positive page size, \<open>split_frame\<close> succeeds,
  and concatenating its chunks in page order gives back the input table exactly: no row
  is duplicated and none is dropped. \<open>paginate_table\<close> applies \<open>split_frame\<close> to the table
  after the optional sort, so the chunks cover the sorted table when a sort was requested.
\<close>

theorem split_frame_concat:
  assumes "0 < rows"
  shows "\<exists>pages. split_frame input_df rows = Inr pages \<and> concat pages = input_df"
  using split_frame_concat_aux [OF assms, of input_df] by blast

theorem split_frame_concat_witness:
  "(0::int) < 10
   \<and> split_frame (DataFrame [0..<23::nat]) 10 =
       Inr [enumerate 0 [0..<10], enumerate 10 [10..<20], enumerate 20 [20..<23]]
   \<and> concat [enumerate 0 [0..<10], enumerate 10 [10..<20], enumerate 20 [20..<23]]
       = DataFrame [0..<23::nat]"
proof -
  have h: "(0::int) < 10" by simp
  have ev: "split_frame (DataFrame [0..<23::nat]) 10 =
       Inr [enumerate 0 [0..<10], enumerate 10 [10..<20], enumerate 20 [20..<23]]"
    by code_simp
  from split_frame_concat [OF h, of "DataFrame [0..<23::nat]"] obtain pages where
    "split_frame (DataFrame [0..<23::nat]) 10 = Inr pages" "concat pages = DataFrame [0..<23::nat]"
    by blast
  with ev have "concat [enumerate 0 [0..<10], enumerate 10 [10..<20], enumerate 20 [20..<23]]
       = DataFrame [0..<23::nat]" by simp
  with h ev show ?thesis by blast
qed

subsection \<open>The empty table\<close>

text \<open>
  Claim C9. For an empty input table, whatever the widgets would return, the paginator
  puts the warning \<open>No data available.\<close> on the page and returns; it puts no sort control,
  no page-count element and no page view there.
\<close>

theorem paginate_table_empty:
  "paginate_table sort_values ui [] = (Inr (), [StWarning ''No data available.''])"
  by (simp add: paginate_table_def)

subsection \<open>The selected page exists\<close>

text \<open>
  Claim C10. For every non-empty input table, every page size among 10, 25, 50 and 100,
  and every page index from 1 to \<open>total_pages = max(1, floor(row_count / page_size))\<close>,
  the number of chunks \<open>split_frame\<close> produces is at least \<open>total_pages\<close>, the lookup
  \<open>pages[page_index - 1]\<close> finds a chunk, and \<open>paginate_table\<close> ends normally with that
  chunk displayed. The sort routine is assumed to return as many rows as it is given.
\<close>

theorem selected_page_within_bounds:
  assumes nonempty: "table_data \<noteq> []"
    and keeps: "\<And>f asc df. length (sort_values f asc df) = length df"
    and size: "batch_size ui \<in> {10, 25, 50, 100}"
    and lo: "1 \<le> current_page ui"
    and hi: "current_page ui \<le> max 1 (int (length table_data) div batch_size ui)"
  shows "\<exists>pages page events.
           split_frame (fst (sort_step sort_values ui table_data)) (batch_size ui) = Inr pages
           \<and> max 1 (int (length table_data) div batch_size ui) \<le> int (length pages)
           \<and> getitem pages (current_page ui - 1) = Inr page
           \<and> paginate_table sort_values ui table_data = (Inr (), events @ [StDataframe page])"
proof -
  let ?b = "batch_size ui"
  obtain shown sort_events where st: "sort_step sort_values ui table_data = (shown, sort_events)"
    by (cases "sort_step sort_values ui table_data")
  from st keeps have len: "length shown = length table_data"
    by (auto simp: sort_step_def split: if_splits)
  with nonempty have shown_ne: "shown \<noteq> []" by auto
  from size have b: "0 < ?b" by auto
  from split_frame_concat_aux [OF b, of shown] obtain pages where
    pages: "split_frame shown ?b = Inr pages"
    and np: "length pages = n_chunks (length shown) (nat ?b)" by blast
  from total_pages_le_chunks [OF b shown_ne] len np
  have bound: "max 1 (int (length table_data) div ?b) \<le> int (length pages)" by simp
  from lo hi bound np have idx: "nat (current_page ui - 1) < n_chunks (length shown) (nat ?b)"
    by linarith
  let ?page = "take (nat ?b) (drop (nat (current_page ui - 1) * nat ?b) shown)"
  from select_page_chunk [OF b lo idx]
  have sel: "select_page shown ?b (current_page ui) = Inr ?page" .
  with pages have get: "getitem pages (current_page ui - 1) = Inr ?page"
    by (simp add: select_page_def and_then_def)
  from total_pages_div [OF b, of shown]
  have tp: "total_pages shown ?b = Inr (max 1 (int (length shown) div ?b))" .
  from paginate_table_nonempty [OF nonempty st tp sel]
  have "\<exists>events. paginate_table sort_values ui table_data = (Inr (), events @ [StDataframe ?page])"
    by (metis append.assoc)
  with pages bound get st show ?thesis by auto
qed

theorem selected_page_within_bounds_witness:
  "DataFrame [0..<23::nat] \<noteq> []
   \<and> (\<forall>f asc df. length ((\<lambda>f asc (df :: nat frame). df) f asc df) = length df)
   \<and> batch_size \<lparr>sort_option = ''No'', sort_field = ''state'', sort_direction = Up,
                   batch_size = 10, current_page = 2\<rparr> \<in> {10, 25, 50, 100}
   \<and> split_frame (DataFrame [0..<23::nat]) 10 =
       Inr [enumerate 0 [0..<10], enumerate 10 [10..<20], enumerate 20 [20..<23]]
   \<and> getitem [enumerate 0 [0..<10], enumerate 10 [10..<20], enumerate 20 [20..<23::nat]] (2 - 1)
       = Inr (enumerate 10 [10..<20])
   \<and> fst (paginate_table (\<lambda>f asc df. df)
             \<lparr>sort_option = ''No'', sort_field = ''state'', sort_direction = Up,
              batch_size = 10, current_page = 2\<rparr> (DataFrame [0..<23::nat])) = Inr ()"
proof -
  let ?ui = "\<lparr>sort_option = ''No'', sort_field = ''state'', sort_direction = Up,
              batch_size = 10, current_page = 2\<rparr>"
  let ?t = "DataFrame [0..<23::nat]"
  let ?sv = "\<lambda>(f :: string) (asc :: bool) (df :: nat frame). df"
  have h1: "?t \<noteq> []" by code_simp
  have h2: "\<And>f asc df. length (?sv f asc df) = length df" by simp
  have h3: "batch_size ?ui \<in> {10, 25, 50, 100}" by simp
  have h4: "1 \<le> current_page ?ui" by simp
  have h5: "current_page ?ui \<le> max 1 (int (length ?t) div batch_size ?ui)"
    by (simp add: DataFrame_def)
  have ev: "split_frame ?t 10 =
       Inr [enumerate 0 [0..<10], enumerate 10 [10..<20], enumerate 20 [20..<23]]"
    by code_simp
  have g: "getitem [enumerate 0 [0..<10], enumerate 10 [10..<20], enumerate 20 [20..<23::nat]] (2 - 1)
       = Inr (enumerate 10 [10..<20])"
    by (simp add: getitem_def)
  from selected_page_within_bounds [of ?t ?sv ?ui, OF h1 h2 h3 h4 h5]
  have "fst (paginate_table ?sv ?ui ?t) = Inr ()" by auto
  with h1 h3 ev g show ?thesis by simp
qed



section \<open>Properties of the statistics read\<close>

text \<open>
  Claim C8. Whenever the scalar statistics read fails (the connection, the cursor, a
  query, a fetch or a close raises, or a fetched result has no first column), the
  function does not raise: it returns the pair \<open>(0, 0)\<close> and puts exactly one message on
  the page, the text of the exception, with \<open>st.error\<close>. Since the result is a value, the
  caller goes on with the rest of the refresh pass.
\<close>

theorem fetch_voting_stats_failure:
  assumes "store_fails db"
  shows "\<exists>e. fetch_voting_stats db =
           (Inr (0, 0), [StError (''Error fetching voting stats: '' @ str_exn e)])"
proof -
  from assms have "\<exists>e. fetch_voting_stats_try db = Inl e"
    unfolding store_fails_def fetch_voting_stats_try_def and_then_def
    by (auto simp: isl_def split: sum.splits)
  then show ?thesis by (auto simp: fetch_voting_stats_def)
qed

theorem fetch_voting_stats_failure_witness:
  "store_fails \<lparr>connect = Inl (OperationalError ''connection refused''), cursor = Inr (),
       execute_voters = Inr (), fetchone_voters = Inr (Some [0]),
       execute_candidates = Inr (), fetchone_candidates = Inr (Some [0]),
       cur_close = Inr (), conn_close = Inr ()\<rparr>
   \<and> fetch_voting_stats \<lparr>connect = Inl (OperationalError ''connection refused''), cursor = Inr (),
       execute_voters = Inr (), fetchone_voters = Inr (Some [0]),
       execute_candidates = Inr (), fetchone_candidates = Inr (Some [0]),
       cur_close = Inr (), conn_close = Inr ()\<rparr>
     = (Inr (0, 0), [StError ''Error fetching voting stats: connection refused''
                     :: turnout_aggregate ui_event])"
proof -
  let ?db = "\<lparr>connect = Inl (OperationalError ''connection refused''), cursor = Inr (),
       execute_voters = Inr (), fetchone_voters = Inr (Some [0]),
       execute_candidates = Inr (), fetchone_candidates = Inr (Some [0]),
       cur_close = Inr (), conn_close = Inr ()\<rparr>"
  have h: "store_fails ?db" by (simp add: store_fails_def)
  have ev: "fetch_voting_stats ?db
     = (Inr (0, 0), [StError ''Error fetching voting stats: connection refused''
                     :: turnout_aggregate ui_event])"
    by (simp add: fetch_voting_stats_def fetch_voting_stats_try_def and_then_def)
  from fetch_voting_stats_failure [OF h] h ev show ?thesis by blast
qed

end
